theory Spec2Isabelle
  imports Complex_Main "HOL-Library.Multiset"
begin

section \<open>The embedding pipeline and the batch splitters of the vector-database notebook\<close>

text \<open>
  The notebook \<^verbatim>\<open>Using_vector_databases_for_embeddings_search.ipynb\<close> defines
  \<^verbatim>\<open>get_embeddings\<close>, \<^verbatim>\<open>batchify\<close>, \<^verbatim>\<open>embed_corpus\<close> and the class
  \<^verbatim>\<open>BatchGenerator\<close>. This theory embeds them as HOL functions. A Python list and a
  DataFrame (a table of rows) are HOL lists; a raised exception is the left injection of a
  sum type; the tokenizer, the embedding service and the interleaving of the main thread
  with the worker threads are parameters of the model.
\<close>

subsection \<open>Exceptions\<close>

text \<open>
  \<^verbatim>\<open>ZeroDivisionError\<close> and \<^verbatim>\<open>ValueError\<close> are raised by the interpreter and the
  libraries (division by zero, a zero step of \<^verbatim>\<open>range\<close>, a non-positive number of
  workers or of sections, a text that spells a special token of the tokenizer). The other
  three are errors of the embedding service: rate limiting and connection loss are
  transient, an invalid request is permanent.
\<close>

datatype error = ZeroDivisionError | ValueError | RateLimitError | APIConnectionError | InvalidRequestError

subsection \<open>batchify\<close>

text \<open>
  \<^verbatim>\<open>
  def batchify(iterable, n=1):
      l = len(iterable)
      for ndx in range(0, l, n):
          yield iterable[ndx : min(ndx + n, l)]
  \<close>
  \<open>slice xs a b\<close> is the Python slice \<^verbatim>\<open>xs[a:b]\<close> for bounds that are not negative.
  \<open>batchify_from\<close> is the loop over \<^verbatim>\<open>range(0, l, n)\<close> for a positive step, started at
  \<open>ndx\<close>. \<^verbatim>\<open>range\<close> raises \<^verbatim>\<open>ValueError\<close> for the step 0 and is empty for a negative
  step (its start 0 is not above its stop). The generator is lazy; the model returns the
  list of everything it yields, or the exception that the first \<^verbatim>\<open>next\<close> raises.
\<close>

definition slice :: "'a list \<Rightarrow> nat \<Rightarrow> nat \<Rightarrow> 'a list" where
  "slice xs a b = take (b - a) (drop a xs)"

function batchify_from :: "'a list \<Rightarrow> nat \<Rightarrow> nat \<Rightarrow> 'a list list" where
  "batchify_from iterable n ndx =
     (let l = length iterable in
      if n = 0 \<or> l \<le> ndx then []
      else slice iterable ndx (min (ndx + n) l) # batchify_from iterable n (ndx + n))"
  by pat_completeness auto
termination
  by (relation "measure (\<lambda>(iterable, n, ndx). length iterable - ndx)") auto

declare batchify_from.simps [simp del]

definition batchify :: "'a list \<Rightarrow> int \<Rightarrow> error + 'a list list" where
  "batchify iterable n =
     (if n = 0 then Inl ValueError
      else if n < 0 then Inr []
      else Inr (batchify_from iterable (nat n) 0))"

subsection \<open>BatchGenerator\<close>

text \<open>
  \<^verbatim>\<open>
  class BatchGenerator:
      def __init__(self, batch_size: int = 10) -> None:
          self.batch_size = batch_size
      def to_batches(self, df):
          splits = self.splits_num(df.shape[0])
          if splits <= 1:
              yield df
          else:
              for chunk in np.array_split(df, splits):
                  yield chunk
      def splits_num(self, elements: int) -> int:
          return round(elements / self.batch_size)
  \<close>
  Python's \<^verbatim>\<open>round\<close> of a float rounds to the nearest integer and a tie to the even
  one. \<open>py_round\<close> does so on the exact quotient. The float quotient of the program is
  the correctly rounded double of that quotient, and both round to the same integer for
  every table of fewer than \<open>2^51\<close> rows.
\<close>

definition py_round :: "rat \<Rightarrow> int" where
  "py_round x =
     (let f = \<lfloor>x\<rfloor>; d = x - of_int f in
      if d < 1 / 2 then f
      else if 1 / 2 < d then f + 1
      else if even f then f else f + 1)"

text \<open>
  \<^verbatim>\<open>numpy.array_split(ary, n)\<close> is library code. As its documentation and source state,
  it raises \<^verbatim>\<open>ValueError\<close> unless \<open>n\<close> is positive, and otherwise cuts \<open>ary\<close> into
  \<open>n\<close> consecutive sections: the first \<open>len(ary) % n\<close> of them have
  \<open>len(ary) // n + 1\<close> rows and the others \<open>len(ary) // n\<close> rows. \<open>chop\<close> cuts a list
  into consecutive pieces of the given sizes.
\<close>

fun chop :: "nat list \<Rightarrow> 'a list \<Rightarrow> 'a list list" where
  "chop [] xs = []"
| "chop (s # ss) xs = take s xs # chop ss (drop s xs)"

definition array_split :: "'a list \<Rightarrow> int \<Rightarrow> error + 'a list list" where
  "array_split ary indices_or_sections =
     (if indices_or_sections \<le> 0 then Inl ValueError
      else
        let Nsections = nat indices_or_sections;
            Ntotal = length ary;
            Neach_section = Ntotal div Nsections;
            extras = Ntotal mod Nsections;
            section_sizes = replicate extras (Neach_section + 1)
                            @ replicate (Nsections - extras) Neach_section
        in Inr (chop section_sizes ary))"

text \<open>
  The class has the one field \<open>batch_size\<close>. Division by a zero batch size raises
  \<^verbatim>\<open>ZeroDivisionError\<close>. The number of rows \<^verbatim>\<open>df.shape[0]\<close> is the length of the list.
\<close>

record BatchGenerator =
  batch_size :: int

definition splits_num :: "BatchGenerator \<Rightarrow> nat \<Rightarrow> error + int" where
  "splits_num self elements =
     (if batch_size self = 0 then Inl ZeroDivisionError
      else Inr (py_round (of_nat elements / of_int (batch_size self))))"

definition to_batches :: "BatchGenerator \<Rightarrow> 'a list \<Rightarrow> error + 'a list list" where
  "to_batches self df =
     (case splits_num self (length df) of
        Inl e \<Rightarrow> Inl e
      | Inr splits \<Rightarrow>
          if splits \<le> 1 then Inr [df]
          else array_split df splits)"

subsection \<open>The tokenizer and the truncation\<close>

text \<open>
  \<^verbatim>\<open>
  encoding = tiktoken.get_encoding("cl100k_base")
  encoded_corpus = [
      encoded_article[:max_context_len] for encoded_article in encoding.encode_batch(corpus)
  ]
  \<close>
  The tokenizer is a parameter \<open>encode\<close>: \<^verbatim>\<open>encoding.encode\<close> with its default
  arguments, which either returns the token sequence of a text or raises. With the
  defaults of \<^verbatim>\<open>tiktoken\<close> no special token is allowed, and a text that spells one
  (\<^verbatim>\<open><|endoftext|>\<close> for example) raises \<^verbatim>\<open>ValueError\<close>. \<^verbatim>\<open>encode_batch\<close> encodes
  every text and returns the list of the results, or raises the exception of the first
  text that failed. \<open>slice_to xs stop\<close> is the Python slice \<^verbatim>\<open>xs[:stop]\<close>: a negative
  \<open>stop\<close> counts from the end of the list. \<open>encoded_corpus\<close> is the value of the
  variable of that name, or the exception that \<^verbatim>\<open>encode_batch\<close> raised.
\<close>

definition slice_to :: "'a list \<Rightarrow> int \<Rightarrow> 'a list" where
  "slice_to xs stop =
     (if stop < 0 then take (length xs - nat (- stop)) xs else take (nat stop) xs)"

type_synonym tokens = "nat list"

fun encode_batch :: "(string \<Rightarrow> error + tokens) \<Rightarrow> string list \<Rightarrow> error + tokens list" where
  "encode_batch encode [] = Inr []"
| "encode_batch encode (text # texts) =
     (case encode text of
        Inl e \<Rightarrow> Inl e
      | Inr encoded_article \<Rightarrow>
          (case encode_batch encode texts of
             Inl e \<Rightarrow> Inl e
           | Inr encoded_articles \<Rightarrow> Inr (encoded_article # encoded_articles)))"

definition encoded_corpus ::
  "(string \<Rightarrow> error + tokens) \<Rightarrow> string list \<Rightarrow> int \<Rightarrow> error + tokens list" where
  "encoded_corpus encode corpus max_context_len =
     (case encode_batch encode corpus of
        Inl e \<Rightarrow> Inl e
      | Inr encoded_articles \<Rightarrow>
          Inr (map (\<lambda>encoded_article. slice_to encoded_article max_context_len)
                 encoded_articles))"

subsection \<open>get_embeddings\<close>

text \<open>
  \<^verbatim>\<open>
  def get_embeddings(input: List):
      response = openai.Embedding.create(
          input=input,
          model=EMBEDDING_MODEL,
      )["data"]
      return [data["embedding"] for data in response]
  \<close>
  The embedding service is a state machine \<open>create\<close>: in a state and for a list of token
  sequences it either fails with an error or answers with a list of data items, and moves
  to a next state. The state lets an answer depend on the requests made before (a rate
  limit, for example). \<open>get_embeddings\<close> sends one request; an exception of the request
  propagates to the caller.
\<close>

record 'v datum =
  index :: nat
  embedding :: 'v

type_synonym ('s, 'v) service = "'s \<Rightarrow> tokens list \<Rightarrow> (error + 'v datum list) \<times> 's"

definition get_embeddings ::
  "('s, 'v) service \<Rightarrow> tokens list \<Rightarrow> 's \<Rightarrow> (error + 'v list) \<times> 's" where
  "get_embeddings create input s =
     (case create s input of
        (Inl e, s') \<Rightarrow> (Inl e, s')
      | (Inr response, s') \<Rightarrow> (Inr (map embedding response), s'))"

subsection \<open>embed_corpus\<close>

text \<open>
  \<^verbatim>\<open>
  def embed_corpus(corpus, batch_size=64, num_workers=8, max_context_len=8191):
      encoding = tiktoken.get_encoding("cl100k_base")
      encoded_corpus = [...]
      num_tokens = sum(len(article) for article in encoded_corpus)
      cost_to_embed_tokens = num_tokens / 1_000 * 0.0004
      print(f"num_articles={len(encoded_corpus)}, num_tokens={num_tokens}, est_embedding_cost=...")
      with concurrent.futures.ThreadPoolExecutor(max_workers=num_workers) as executor:
          futures = [
              executor.submit(get_embeddings, text_batch)
              for text_batch in batchify(encoded_corpus, batch_size)
          ]
          with tqdm(total=len(encoded_corpus)) as pbar:
              for _ in concurrent.futures.as_completed(futures):
                  pbar.update(batch_size)
          embeddings = []
          for future in futures:
              data = future.result()
              embeddings.extend(data)
          return embeddings
  \<close>
  What the run does besides returning is recorded as a list of events: the printed
  statistics (number of articles, number of tokens, estimated cost; the cost is kept as an
  exact rational), each \<^verbatim>\<open>executor.submit\<close> with its batch, each request that a worker
  sends (with the position of its future in \<^verbatim>\<open>futures\<close>), and each \<^verbatim>\<open>pbar.update\<close>.
\<close>

datatype event =
    is_Report: Report nat nat rat
  | is_Submit: Submit "tokens list"
  | is_Request: Request nat
  | is_Progress: Progress int

text \<open>
  Inside the \<^verbatim>\<open>with\<close> block the main thread and the workers of the pool run
  concurrently. The main thread first submits the batches one by one (\<open>todo\<close> holds those
  not yet submitted, \<open>nxt\<close> is the position of the next future) and then, in the
  \<^verbatim>\<open>as_completed\<close> loop, updates the progress bar once for every completed future
  (\<open>owed\<close> counts the completed futures it has not yet been handed). A worker takes a
  submitted future that has not run yet (\<open>pending\<close>, each with its position) and runs its
  \<open>get_embeddings\<close> against the current state of the service; requests are atomic.

  The schedule \<open>sched\<close> resolves the concurrency. At every step the enabled actions are
  the main thread's, if it has a batch to submit or a completion to report, followed by
  one action per pending future; the head of the schedule, modulo the number of enabled
  actions, picks the one that happens, and an exhausted schedule picks the first. So the
  requests may overlap the submissions and complete in any order; \<^verbatim>\<open>max_workers\<close>
  only restricts which of these orders can happen. The run ends when nothing is enabled:
  every batch is submitted, every future has completed and every completion is reported,
  which is where the program leaves the \<^verbatim>\<open>as_completed\<close> loop.
\<close>

datatype action =
    Stop
  | SubmitNext "tokens list" "tokens list list"
  | ReportProgress
  | RunFuture nat "tokens list" "(nat \<times> tokens list) list"

definition main_enabled :: "tokens list list \<Rightarrow> nat \<Rightarrow> bool" where
  "main_enabled todo owed = (todo \<noteq> [] \<or> 0 < owed)"

definition enabled :: "tokens list list \<Rightarrow> (nat \<times> tokens list) list \<Rightarrow> nat \<Rightarrow> nat" where
  "enabled todo pending owed = (if main_enabled todo owed then 1 else 0) + length pending"

definition choice :: "nat list \<Rightarrow> nat \<Rightarrow> nat" where
  "choice sched n = (case sched of [] \<Rightarrow> 0 | c # _ \<Rightarrow> c mod n)"

definition pick_action ::
  "tokens list list \<Rightarrow> (nat \<times> tokens list) list \<Rightarrow> nat \<Rightarrow> nat list \<Rightarrow> action" where
  "pick_action todo pending owed sched =
     (if enabled todo pending owed = 0 then Stop
      else
        let c = choice sched (enabled todo pending owed)
        in if main_enabled todo owed \<and> c = 0
           then (case todo of
                   text_batch # rest \<Rightarrow> SubmitNext text_batch rest
                 | [] \<Rightarrow> ReportProgress)
           else
             let k = (if main_enabled todo owed then c - 1 else c)
             in RunFuture (fst (pending ! k)) (snd (pending ! k))
                  (take k pending @ drop (Suc k) pending))"

text \<open>
  \<open>run_executor\<close> returns the events of the block, the requests in the order in which
  they completed (position of the future, batch, outcome of \<open>get_embeddings\<close>) and the
  state in which the service is left.
\<close>

function run_executor ::
  "('s, 'v) service \<Rightarrow> int \<Rightarrow> tokens list list \<Rightarrow> nat \<Rightarrow> (nat \<times> tokens list) list \<Rightarrow> nat
     \<Rightarrow> nat list \<Rightarrow> 's \<Rightarrow> event list \<times> (nat \<times> tokens list \<times> (error + 'v list)) list \<times> 's" where
  "run_executor create batch_sz todo nxt pending owed sched s =
     (case pick_action todo pending owed sched of
        Stop \<Rightarrow> ([], [], s)
      | SubmitNext text_batch rest \<Rightarrow>
          (case run_executor create batch_sz rest (Suc nxt) (pending @ [(nxt, text_batch)])
                  owed (tl sched) s of
             (evs, reqs, s') \<Rightarrow> (Submit text_batch # evs, reqs, s'))
      | ReportProgress \<Rightarrow>
          (case run_executor create batch_sz todo nxt pending (owed - 1) (tl sched) s of
             (evs, reqs, s') \<Rightarrow> (Progress batch_sz # evs, reqs, s'))
      | RunFuture i text_batch others \<Rightarrow>
          (case get_embeddings create text_batch s of
             (r, s1) \<Rightarrow>
               (case run_executor create batch_sz todo nxt others (Suc owed) (tl sched) s1 of
                  (evs, reqs, s') \<Rightarrow> (Request i # evs, (i, text_batch, r) # reqs, s'))))"
  by pat_completeness auto
termination
proof (relation "measure (\<lambda>(create, batch_sz, todo, nxt, pending, owed, sched, s).
                           3 * length todo + 2 * length pending + owed)")
  show "wf (measure (\<lambda>(create :: ('s, 'v) service, batch_sz :: int, todo :: tokens list list,
                         nxt :: nat, pending :: (nat \<times> tokens list) list, owed :: nat,
                         sched :: nat list, s :: 's).
                       3 * length todo + 2 * length pending + owed))"
    by simp
next
  fix create :: "('s, 'v) service" and batch_sz :: int and todo :: "tokens list list"
    and nxt :: nat and pending :: "(nat \<times> tokens list) list" and owed :: nat
    and sched :: "nat list" and s :: 's and text_batch rest
  assume "pick_action todo pending owed sched = SubmitNext text_batch rest"
  then have "todo = text_batch # rest"
    by (simp add: pick_action_def Let_def split: if_splits list.splits)
  then show "((create, batch_sz, rest, Suc nxt, pending @ [(nxt, text_batch)], owed, tl sched, s),
              create, batch_sz, todo, nxt, pending, owed, sched, s)
      \<in> measure (\<lambda>(create, batch_sz, todo, nxt, pending, owed, sched, s).
                    3 * length todo + 2 * length pending + owed)"
    by simp
next
  fix create :: "('s, 'v) service" and batch_sz :: int and todo :: "tokens list list"
    and nxt :: nat and pending :: "(nat \<times> tokens list) list" and owed :: nat
    and sched :: "nat list" and s :: 's
  assume "pick_action todo pending owed sched = ReportProgress"
  then have "todo = []" "main_enabled todo owed"
    by (simp_all add: pick_action_def Let_def split: if_splits list.splits)
  then have "0 < owed"
    by (simp add: main_enabled_def)
  then show "((create, batch_sz, todo, nxt, pending, owed - 1, tl sched, s),
              create, batch_sz, todo, nxt, pending, owed, sched, s)
      \<in> measure (\<lambda>(create, batch_sz, todo, nxt, pending, owed, sched, s).
                    3 * length todo + 2 * length pending + owed)"
    by simp
next
  fix create :: "('s, 'v) service" and batch_sz :: int and todo :: "tokens list list"
    and nxt :: nat and pending :: "(nat \<times> tokens list) list" and owed :: nat
    and sched :: "nat list" and s :: 's and i text_batch others
    and x :: "(error + 'v list) \<times> 's" and r s1
  assume pa: "pick_action todo pending owed sched = RunFuture i text_batch others"
  define c where "c = choice sched (enabled todo pending owed)"
  define k where "k = (if main_enabled todo owed then c - 1 else c)"
  have en: "enabled todo pending owed \<noteq> 0"
    using pa by (auto simp: pick_action_def split: if_splits)
  then have nm: "\<not> (main_enabled todo owed \<and> c = 0)"
    using pa by (auto simp: pick_action_def Let_def c_def split: if_splits list.splits)
  have "others = take k pending @ drop (Suc k) pending"
    using pa en nm by (auto simp: pick_action_def Let_def c_def k_def split: if_splits)
  moreover have "c < enabled todo pending owed"
    using en by (cases sched) (simp_all add: c_def choice_def)
  then have "k < length pending"
    using nm by (auto simp: k_def enabled_def split: if_splits)
  ultimately have "\<exists>k < length pending. others = take k pending @ drop (Suc k) pending"
    by blast
  then have "length others < length pending"
    by auto
  then show "((create, batch_sz, todo, nxt, others, Suc owed, tl sched, s1),
              create, batch_sz, todo, nxt, pending, owed, sched, s)
      \<in> measure (\<lambda>(create, batch_sz, todo, nxt, pending, owed, sched, s).
                    3 * length todo + 2 * length pending + owed)"
    by simp
qed

declare run_executor.simps [simp del]

text \<open>
  A future is \<open>None\<close> while it is pending and \<open>Some\<close> of its outcome once it is done.
  \<open>set_results\<close> stores the outcome of every request in the future at its position.
  \<open>gather\<close> is the final loop over \<^verbatim>\<open>futures\<close> in submission order:
  \<^verbatim>\<open>future.result()\<close> returns the data of a future that succeeded, raises the exception
  of one that failed, and would block on one that never completes, in which case the loop
  returns nothing (\<open>None\<close>).
\<close>

definition set_results ::
  "(nat \<times> 'b \<times> 'r) list \<Rightarrow> 'r option list \<Rightarrow> 'r option list" where
  "set_results reqs futures = fold (\<lambda>(i, text_batch, r) fs. fs[i := Some r]) reqs futures"

fun gather :: "(error + 'v list) option list \<Rightarrow> 'v list \<Rightarrow> (error + 'v list) option" where
  "gather [] embeddings = Some (Inr embeddings)"
| "gather (None # futures) embeddings = None"
| "gather (Some (Inl e) # futures) embeddings = Some (Inl e)"
| "gather (Some (Inr data) # futures) embeddings = gather futures (embeddings @ data)"

text \<open>
  The outcome of a run: the events, the requests that were sent with their outcomes, what
  \<open>embed_corpus\<close> returned or raised, and the state in which it left the service. The
  parameter \<^verbatim>\<open>batch_size\<close> of the program is written \<open>batch_sz\<close> here, since
  \<open>batch_size\<close> is the field of \<open>BatchGenerator\<close>. An exception of the tokenizer ends the
  run before anything is printed. \<^verbatim>\<open>ThreadPoolExecutor\<close> raises \<^verbatim>\<open>ValueError\<close> unless
  \<^verbatim>\<open>max_workers\<close> is positive; an exception of \<open>batchify\<close> surfaces in the list
  comprehension before anything is submitted.
\<close>

record ('s, 'v) run =
  events :: "event list"
  requests :: "(nat \<times> tokens list \<times> (error + 'v list)) list"
  returned :: "(error + 'v list) option"
  service_state :: 's

definition embed_corpus ::
  "(string \<Rightarrow> error + tokens) \<Rightarrow> ('s, 'v) service \<Rightarrow> nat list \<Rightarrow>
     string list \<Rightarrow> int \<Rightarrow> int \<Rightarrow> int \<Rightarrow> 's \<Rightarrow> ('s, 'v) run" where
  "embed_corpus encode create sched corpus batch_sz num_workers max_context_len s =
     (case encoded_corpus encode corpus max_context_len of
        Inl e \<Rightarrow> \<lparr>events = [], requests = [], returned = Some (Inl e), service_state = s\<rparr>
      | Inr enc \<Rightarrow>
          let num_tokens = sum_list (map length enc);
              cost_to_embed_tokens = of_nat num_tokens / 1000 * (4 / 10000);
              printed = [Report (length enc) num_tokens cost_to_embed_tokens]
          in if num_workers \<le> 0
             then \<lparr>events = printed, requests = [], returned = Some (Inl ValueError),
                   service_state = s\<rparr>
             else
               case batchify enc batch_sz of
                 Inl e \<Rightarrow>
                   \<lparr>events = printed, requests = [], returned = Some (Inl e),
                     service_state = s\<rparr>
               | Inr batches \<Rightarrow>
                   (case run_executor create batch_sz batches 0 [] 0 sched s of
                      (evs, reqs, s') \<Rightarrow>
                        \<lparr>events = printed @ evs,
                         requests = reqs,
                         returned = gather (set_results reqs (replicate (length batches) None)) [],
                         service_state = s'\<rparr>))"

subsection \<open>Services and a tokenizer for concrete runs\<close>

text \<open>
  Four services to run the model on. An answer of any of them has one data item per token
  sequence, in order, whose embedding is the sum of the tokens, and their state counts the
  requests they have received. \<open>ideal\<close> always answers. \<open>flaky\<close> is rate limited: it
  rejects the first two requests it receives and answers from the third on. \<open>strict\<close>
  rejects every request that contains an empty token sequence, and \<open>moody\<close> does both:
  it rejects such a request and rate-limits the others as \<open>flaky\<close> does. \<open>toy_encode\<close> is a
  tokenizer with one token per character that raises, as \<^verbatim>\<open>tiktoken\<close> does, on a text
  that spells the special token \<^verbatim>\<open><|endoftext|>\<close>.
\<close>

definition respond :: "tokens list \<Rightarrow> nat datum list" where
  "respond input = map (\<lambda>(i, t). \<lparr>index = i, embedding = sum_list t\<rparr>) (enumerate 0 input)"

definition ideal :: "(nat, nat) service" where
  "ideal s input = (Inr (respond input), Suc s)"

definition flaky :: "(nat, nat) service" where
  "flaky s input =
     (if s < 2 then (Inl RateLimitError, Suc s) else (Inr (respond input), Suc s))"



fun starts_with :: "'a list \<Rightarrow> 'a list \<Rightarrow> bool" where
  "starts_with [] ys = True"
| "starts_with (x # xs) [] = False"
| "starts_with (x # xs) (y # ys) = (x = y \<and> starts_with xs ys)"

fun spells :: "'a list \<Rightarrow> 'a list \<Rightarrow> bool" where
  "spells special [] = starts_with special []"
| "spells special (c # cs) = (starts_with special (c # cs) \<or> spells special cs)"

definition toy_encode :: "string \<Rightarrow> error + tokens" where
  "toy_encode text =
     (if spells ''<|endoftext|>'' text then Inl ValueError else Inr (map of_char text))"

section \<open>Properties of the splitters\<close>

subsection \<open>Rounding\<close>

text \<open>\<open>py_round\<close> of a quotient of integers, by integer division and remainder.\<close>

lemma py_round_div:
  assumes "0 < b"
  shows "py_round (of_int a / of_int b) =
     (if 2 * (a mod b) < b then a div b
      else if b < 2 * (a mod b) then a div b + 1
      else if even (a div b) then a div b else a div b + 1)"
proof -
  have f: "\<lfloor>(of_int a / of_int b :: rat)\<rfloor> = a div b"
    by (simp add: floor_divide_of_int_eq)
  have "(of_int a :: rat) = of_int (a div b) * of_int b + of_int (a mod b)"
    by (metis div_mult_mod_eq of_int_add of_int_mult)
  then have d: "(of_int a / of_int b :: rat) - of_int (a div b) = of_int (a mod b) / of_int b"
    using assms by (simp add: field_simps)
  have lt: "(of_int (a mod b) / of_int b :: rat) < 1 / 2 \<longleftrightarrow> 2 * (a mod b) < b"
  proof -
    have "(of_int (a mod b) / of_int b :: rat) < 1 / 2 \<longleftrightarrow> (of_int (2 * (a mod b)) :: rat) < of_int b"
      using assms by (simp add: field_simps)
    then show ?thesis by (simp only: of_int_less_iff)
  qed
  have gt: "1 / 2 < (of_int (a mod b) / of_int b :: rat) \<longleftrightarrow> b < 2 * (a mod b)"
  proof -
    have "1 / 2 < (of_int (a mod b) / of_int b :: rat) \<longleftrightarrow> (of_int b :: rat) < of_int (2 * (a mod b))"
      using assms by (simp add: field_simps)
    then show ?thesis by (simp only: of_int_less_iff)
  qed
  show ?thesis
    unfolding py_round_def Let_def f d lt gt by simp
qed

lemma py_round_zero: "py_round 0 = 0"
  by (simp add: py_round_def)

lemma py_round_le_div: "0 < b \<Longrightarrow> py_round (of_int a / of_int b) \<le> a div b + 1"
  by (simp add: py_round_div)

text \<open>With a batch size of at least one, the number of splits never exceeds the number of rows.\<close>

lemma py_round_le_self:
  assumes "0 < b" "0 \<le> a"
  shows "py_round (of_int a / of_int b) \<le> a"
proof (cases "b = 1")
  case True
  then show ?thesis using py_round_div[of 1 a] by simp
next
  case False
  with assms have b2: "2 \<le> b" by simp
  show ?thesis
  proof (cases "a < b")
    case True
    then have q: "a div b = 0" and r: "a mod b = a" using assms by simp_all
    show ?thesis
      using assms b2 by (simp add: py_round_div q r)
  next
    case False
    then have "b \<le> a" by simp
    have "a div b * 2 \<le> a div b * b"
      using b2 assms by (intro mult_left_mono) (simp_all add: pos_imp_zdiv_nonneg_iff)
    also have "\<dots> \<le> a"
      using assms by (metis add_increasing2 div_mult_mod_eq order_refl pos_mod_sign)
    finally have "a div b * 2 \<le> a" .
    moreover have "0 < a div b"
      using \<open>b \<le> a\<close> assms by (simp add: pos_imp_zdiv_pos_iff)
    ultimately have "a div b + 1 \<le> a" by linarith
    with py_round_le_div[OF assms(1), of a] show ?thesis by linarith
  qed
qed

lemma py_round_nonpos:
  assumes "x \<le> 0"
  shows "py_round x \<le> 0"
proof (cases "x = 0")
  case True
  then show ?thesis by (simp add: py_round_zero)
next
  case False
  with assms have "x < 0" by simp
  then have "\<lfloor>x\<rfloor> < 0" by simp
  then have "\<lfloor>x\<rfloor> + 1 \<le> 0" by linarith
  then show ?thesis
    by (simp add: py_round_def Let_def)
qed

subsection \<open>Cutting a list into sections\<close>

lemma concat_chop: "concat (chop ss xs) = take (sum_list ss) xs"
proof (induction ss arbitrary: xs)
  case Nil
  then show ?case by simp
next
  case (Cons s ss)
  have "take s xs @ take (sum_list ss) (drop s xs) = take (s + sum_list ss) xs"
    by (simp add: take_add)
  with Cons show ?case by simp
qed

lemma length_chop: "length (chop ss xs) = length ss"
  by (induction ss arbitrary: xs) simp_all

lemma map_length_chop: "sum_list ss \<le> length xs \<Longrightarrow> map length (chop ss xs) = ss"
  by (induction ss arbitrary: xs) simp_all

lemma section_sizes_sum:
  "0 < n \<Longrightarrow> sum_list (replicate (N mod n) (N div n + 1) @ replicate (n - N mod n) (N div n)) = (N::nat)"
proof -
  assume n: "0 < n"
  have "N mod n \<le> n" using n by (simp add: less_imp_le)
  have "sum_list (replicate (N mod n) (N div n + 1) @ replicate (n - N mod n) (N div n))
        = (N mod n) * (N div n + 1) + (n - N mod n) * (N div n)"
    by (simp add: sum_list_replicate)
  also have "\<dots> = N mod n + (N mod n + (n - N mod n)) * (N div n)"
    by (simp add: algebra_simps)
  also have "\<dots> = N mod n + n * (N div n)"
    using \<open>N mod n \<le> n\<close> by simp
  also have "\<dots> = N" by simp
  finally show ?thesis .
qed

lemma array_split_ok:
  assumes "0 < n"
  shows "array_split ary n = Inr (chop (replicate (length ary mod nat n) (length ary div nat n + 1)
            @ replicate (nat n - length ary mod nat n) (length ary div nat n)) ary)"
  using assms by (simp add: array_split_def Let_def)

lemma array_split_concat:
  assumes "0 < n" "array_split ary n = Inr cs"
  shows "concat cs = ary"
  using assms section_sizes_sum[of "nat n" "length ary"]
  by (auto simp: array_split_ok concat_chop simp del: replicate_append_same)

lemma array_split_lengths:
  assumes "0 < n" "array_split ary n = Inr cs"
  shows "map length cs = replicate (length ary mod nat n) (length ary div nat n + 1)
            @ replicate (nat n - length ary mod nat n) (length ary div nat n)"
  using assms section_sizes_sum[of "nat n" "length ary"]
  by (auto simp: array_split_ok map_length_chop)

subsection \<open>to_batches\<close>

lemma splits_num_pos:
  "0 < batch_size self \<Longrightarrow>
     splits_num self elements = Inr (py_round (of_int (int elements) / of_int (batch_size self)))"
  by (simp add: splits_num_def)

lemma to_batches_cases:
  assumes "0 < batch_size self"
  shows "\<exists>splits. splits_num self (length df) = Inr splits \<and> splits \<le> int (length df) \<and>
           to_batches self df = (if splits \<le> 1 then Inr [df] else array_split df splits)"
  using assms py_round_le_self[of "batch_size self" "int (length df)"]
  by (simp add: to_batches_def splits_num_pos)

lemma to_batches_concat:
  assumes "0 < batch_size self"
  shows "\<exists>cs. to_batches self df = Inr cs \<and> concat cs = df \<and> cs \<noteq> [] \<and>
           (df \<noteq> [] \<longrightarrow> [] \<notin> set cs)"
proof -
  from to_batches_cases[OF assms, of df] obtain splits where
    sp: "splits_num self (length df) = Inr splits" "splits \<le> int (length df)"
    and tb: "to_batches self df = (if splits \<le> 1 then Inr [df] else array_split df splits)"
    by blast
  show ?thesis
  proof (cases "splits \<le> 1")
    case True
    with tb show ?thesis by auto
  next
    case False
    then have pos: "0 < splits" by simp
    define n where "n = nat splits"
    have n: "2 \<le> n" "n \<le> length df" using False sp(2) by (simp_all add: n_def)
    define cs where "cs = chop (replicate (length df mod n) (length df div n + 1)
            @ replicate (n - length df mod n) (length df div n)) df"
    have eq: "to_batches self df = Inr cs"
      using tb False pos by (simp add: array_split_ok cs_def n_def)
    have "array_split df splits = Inr cs"
      using tb False eq by simp
    note c = array_split_concat[OF pos this] array_split_lengths[OF pos this]
    have "0 < length df div n"
      using n by (simp add: div_greater_zero_iff)
    then have "0 \<notin> set (map length cs)"
      unfolding c(2) n_def[symmetric] by auto
    then have "[] \<notin> set cs" by force
    moreover have "length cs = n"
      using n by (simp add: cs_def length_chop)
    then have "cs \<noteq> []" using n by auto
    ultimately show ?thesis using eq c(1) by simp
  qed
qed

lemma to_batches_nonempty_result:
  assumes "batch_size self \<noteq> 0" "to_batches self df = Inr cs"
  shows "cs \<noteq> []"
proof (cases "0 < batch_size self")
  case True
  from to_batches_concat[OF True, of df] assms(2) show ?thesis by auto
next
  case False
  with assms(1) have neg: "batch_size self < 0" by simp
  have "(of_nat (length df) :: rat) / of_int (batch_size self) \<le> 0"
    using neg by (simp add: divide_nonneg_neg)
  from py_round_nonpos[OF this] have "to_batches self df = Inr [df]"
    using assms(1) by (simp add: to_batches_def splits_num_def)
  with assms(2) show ?thesis by auto
qed

lemma to_batches_empty:
  assumes "batch_size self \<noteq> 0"
  shows "to_batches self [] = Inr [[]]"
  using assms by (simp add: to_batches_def splits_num_def py_round_zero)

lemma splits_25000_300: "splits_num \<lparr>batch_size = 300\<rparr> 25000 = Inr 83"
  using py_round_div[of 300 25000] by (simp add: splits_num_def)

lemma split_25000_by_300:
  assumes "length df = 25000"
  shows "\<exists>cs. to_batches \<lparr>batch_size = 300\<rparr> df = Inr cs \<and> length cs = 83
           \<and> map length cs = replicate 17 302 @ replicate 66 301
           \<and> concat cs = df \<and> [] \<notin> set cs"
proof -
  have tb: "to_batches \<lparr>batch_size = 300\<rparr> df = array_split df 83"
    using splits_25000_300 assms by (simp add: to_batches_def)
  obtain cs where cs: "array_split df 83 = Inr cs"
    by (simp add: array_split_ok)
  have len: "map length cs = replicate 17 302 @ replicate 66 301"
    using array_split_lengths[OF _ cs] assms by simp
  then have "length (map length cs) = 83" by simp
  then have l83: "length cs = 83" by simp
  have "0 \<notin> set (map length cs)" unfolding len by simp
  then have "[] \<notin> set cs" by force
  moreover have "concat cs = df" using array_split_concat[OF _ cs] by simp
  ultimately show ?thesis using tb cs len l83 by simp
qed

subsection \<open>batchify\<close>

lemma batchify_from_concat:
  "0 < n \<Longrightarrow> concat (batchify_from xs n ndx) = drop ndx xs"
proof (induction xs n ndx rule: batchify_from.induct)
  case (1 iterable n ndx)
  show ?case
  proof (cases "length iterable \<le> ndx")
    case True
    then show ?thesis by (subst batchify_from.simps) simp
  next
    case False
    then have ih: "concat (batchify_from iterable n (ndx + n)) = drop (ndx + n) iterable"
      using 1 by simp
    have "slice iterable ndx (min (ndx + n) (length iterable)) = take n (drop ndx iterable)"
      using False by (auto simp: slice_def min_def)
    moreover have "take n (drop ndx iterable) @ drop (ndx + n) iterable = drop ndx iterable"
      by (metis add.commute append_take_drop_id drop_drop)
    ultimately show ?thesis
      using False 1(2) ih by (subst batchify_from.simps) (simp add: Let_def)
  qed
qed

lemma batchify_from_nth:
  "0 < n \<Longrightarrow> i < length (batchify_from xs n ndx) \<Longrightarrow>
     batchify_from xs n ndx ! i = take n (drop (ndx + i * n) xs)"
proof (induction xs n ndx arbitrary: i rule: batchify_from.induct)
  case (1 iterable n ndx)
  show ?case
  proof (cases "length iterable \<le> ndx")
    case True
    then have "batchify_from iterable n ndx = []" by (subst batchify_from.simps) simp
    with 1(3) show ?thesis by simp
  next
    case False
    have hd: "slice iterable ndx (min (ndx + n) (length iterable)) = take n (drop ndx iterable)"
      using False by (auto simp: slice_def min_def)
    have unf: "batchify_from iterable n ndx
        = take n (drop ndx iterable) # batchify_from iterable n (ndx + n)"
      using False 1(2) hd by (subst batchify_from.simps) (simp add: Let_def)
    show ?thesis
    proof (cases i)
      case 0
      then show ?thesis using unf by simp
    next
      case (Suc j)
      then have "j < length (batchify_from iterable n (ndx + n))"
        using 1(3) unf by simp
      then have "batchify_from iterable n (ndx + n) ! j = take n (drop (ndx + n + j * n) iterable)"
        using 1(1)[of "length iterable" j] False 1(2) by simp
      then show ?thesis using unf Suc by (simp add: algebra_simps)
    qed
  qed
qed

lemma batchify_from_length:
  "0 < n \<Longrightarrow> length (batchify_from xs n ndx) = (length xs - ndx + n - 1) div n"
proof (induction xs n ndx rule: batchify_from.induct)
  case (1 iterable n ndx)
  show ?case
  proof (cases "length iterable \<le> ndx")
    case True
    then have "batchify_from iterable n ndx = []" by (subst batchify_from.simps) simp
    then show ?thesis using True 1(2) by simp
  next
    case False
    have unf: "batchify_from iterable n ndx
        = slice iterable ndx (min (ndx + n) (length iterable)) # batchify_from iterable n (ndx + n)"
      using False 1(2) by (subst batchify_from.simps) (simp add: Let_def)
    have ih: "length (batchify_from iterable n (ndx + n)) = (length iterable - (ndx + n) + n - 1) div n"
      using 1 False by simp
    define m where "m = length iterable - ndx"
    have m: "0 < m" using False by (simp add: m_def)
    have "(m - n + n - 1) div n + 1 = (m + n - 1) div n"
    proof (cases "n \<le> m")
      case True
      have a: "m + n - 1 = (m - 1) + n" "m - n + n - 1 = m - 1" using m True by simp_all
      have "(m - 1 + n) div n = (m - 1) div n + 1" using 1(2) by simp
      then show ?thesis unfolding a by simp
    next
      case False
      have a: "m - n + n - 1 = n - 1" "m + n - 1 = (m - 1) + n" using m False by simp_all
      have "(m - 1) div n = 0" "(n - 1) div n = 0" using False m 1(2) by simp_all
      moreover have "(m - 1 + n) div n = (m - 1) div n + 1" using 1(2) by simp
      ultimately show ?thesis unfolding a by simp
    qed
    then show ?thesis using unf ih by (simp add: m_def)
  qed
qed

lemma batchify_from_no_empty:
  "0 < n \<Longrightarrow> [] \<notin> set (batchify_from xs n ndx)"
proof (induction xs n ndx rule: batchify_from.induct)
  case (1 iterable n ndx)
  show ?case
  proof (cases "length iterable \<le> ndx")
    case True
    then show ?thesis by (subst batchify_from.simps) simp
  next
    case False
    then have ih: "[] \<notin> set (batchify_from iterable n (ndx + n))"
      using 1 by simp
    have "slice iterable ndx (min (ndx + n) (length iterable)) \<noteq> []"
      using False 1(2) by (auto simp: slice_def min_def)
    then show ?thesis
      using False 1(2) ih by (subst batchify_from.simps) (simp add: Let_def)
  qed
qed

lemma batchify_pos:
  "0 < n \<Longrightarrow> batchify xs n = Inr (batchify_from xs (nat n) 0)"
  by (simp add: batchify_def)

lemma ceil_div_nat:
  assumes "0 < n"
  shows "nat \<lceil>(of_nat N :: rat) / of_nat n\<rceil> = (N + n - 1) div n"
proof -
  have up: "(of_nat N :: rat) / of_nat n \<le> of_nat ((N + n - 1) div n)"
  proof -
    have "N \<le> (N + n - 1) div n * n"
    proof -
      have "N + n - 1 < (N + n - 1) div n * n + n"
        using assms by (metis add.commute dividend_less_div_times mult.commute)
      then show ?thesis by simp
    qed
    then have "(of_nat N :: rat) \<le> of_nat ((N + n - 1) div n) * of_nat n"
      by (metis of_nat_le_iff of_nat_mult)
    then show ?thesis using assms by (simp add: field_simps)
  qed
  have lo: "of_nat ((N + n - 1) div n) - 1 < (of_nat N :: rat) / of_nat n"
  proof -
    have "(N + n - 1) div n * n \<le> N + n - 1" by simp
    then have "(N + n - 1) div n * n < N + n" using assms by linarith
    then have "(of_nat ((N + n - 1) div n) :: rat) * of_nat n < of_nat N + of_nat n"
      by (metis of_nat_less_iff of_nat_mult of_nat_add)
    then show ?thesis using assms by (simp add: field_simps)
  qed
  have "\<lceil>(of_nat N :: rat) / of_nat n\<rceil> = int ((N + n - 1) div n)"
    using up lo by (intro ceiling_unique) simp_all
  then show ?thesis by simp
qed

section \<open>Properties of the pipeline\<close>

subsection \<open>The tokenizer\<close>

lemma encode_batch_Inr:
  "encode_batch encode corpus = Inr encs \<Longrightarrow>
     length encs = length corpus \<and> (\<forall>i < length corpus. encode (corpus ! i) = Inr (encs ! i))"
proof (induction corpus arbitrary: encs)
  case Nil
  then show ?case by simp
next
  case (Cons t ts)
  from Cons.prems obtain a as where
    a: "encode t = Inr a" "encode_batch encode ts = Inr as" "encs = a # as"
    by (auto split: sum.splits)
  from Cons.IH[OF a(2)] have ih: "length as = length ts"
    "\<forall>i < length ts. encode (ts ! i) = Inr (as ! i)"
    by simp_all
  show ?case
  proof (intro conjI allI impI)
    show "length encs = length (t # ts)" using ih(1) a(3) by simp
  next
    fix i assume "i < length (t # ts)"
    then show "encode ((t # ts) ! i) = Inr (encs ! i)"
      using a ih(2) by (cases i) simp_all
  qed
qed

lemma encode_batch_accepts:
  "(\<forall>text \<in> set corpus. \<exists>a. encode text = Inr a) \<Longrightarrow> \<exists>encs. encode_batch encode corpus = Inr encs"
  by (induction corpus) auto

lemma encode_batch_Inl:
  "encode_batch encode corpus = Inl e \<Longrightarrow> \<exists>text \<in> set corpus. encode text = Inl e"
  by (induction corpus) (auto split: sum.splits)

lemma encoded_corpus_Inr:
  "encode_batch encode corpus = Inr encs \<Longrightarrow>
     encoded_corpus encode corpus L = Inr (map (\<lambda>a. slice_to a L) encs)"
  by (simp add: encoded_corpus_def)

lemma encoded_corpus_Inl:
  "encoded_corpus encode corpus L = Inl e \<Longrightarrow> \<exists>text \<in> set corpus. encode text = Inl e"
  by (auto simp: encoded_corpus_def split: sum.splits dest: encode_batch_Inl)

subsection \<open>The executor\<close>

lemma get_embeddings_cases:
  "get_embeddings create input s =
     (map_sum id (map embedding) (fst (create s input)), snd (create s input))"
  by (cases "create s input"; cases "fst (create s input)") (auto simp: get_embeddings_def)

lemma get_embeddings_Inl:
  "fst (get_embeddings create input s) = Inl e \<Longrightarrow> \<exists>s'. create s input = (Inl e, s')"
  by (cases "create s input"; cases "fst (create s input)") (auto simp: get_embeddings_def)

lemma choice_less: "n \<noteq> 0 \<Longrightarrow> choice sched n < n"
  by (cases sched) (simp_all add: choice_def)

lemma pick_Stop:
  "pick_action todo pending owed sched = Stop \<Longrightarrow> todo = [] \<and> pending = [] \<and> owed = 0"
  by (auto simp: pick_action_def Let_def enabled_def main_enabled_def
      split: if_splits list.splits)

lemma pick_Submit:
  "pick_action todo pending owed sched = SubmitNext text_batch rest \<Longrightarrow> todo = text_batch # rest"
  by (simp add: pick_action_def Let_def split: if_splits list.splits)

lemma pick_Progress:
  "pick_action todo pending owed sched = ReportProgress \<Longrightarrow> todo = [] \<and> 0 < owed"
  by (auto simp: pick_action_def Let_def main_enabled_def split: if_splits list.splits)

lemma pick_Run:
  assumes "pick_action todo pending owed sched = RunFuture i text_batch others"
  shows "\<exists>k < length pending. pending ! k = (i, text_batch)
           \<and> others = take k pending @ drop (Suc k) pending"
proof -
  define c where "c = choice sched (enabled todo pending owed)"
  define k where "k = (if main_enabled todo owed then c - 1 else c)"
  have en: "enabled todo pending owed \<noteq> 0"
    using assms by (auto simp: pick_action_def split: if_splits)
  then have nm: "\<not> (main_enabled todo owed \<and> c = 0)"
    using assms by (auto simp: pick_action_def Let_def c_def split: if_splits list.splits)
  have "others = take k pending @ drop (Suc k) pending" "pending ! k = (i, text_batch)"
    using assms en nm by (auto simp: pick_action_def Let_def c_def k_def split: if_splits)
  moreover have "c < enabled todo pending owed"
    using en by (simp add: c_def choice_less)
  then have "k < length pending"
    using nm by (auto simp: k_def enabled_def split: if_splits)
  ultimately show ?thesis by blast
qed

lemma run_executor_Stop:
  "pick_action todo pending owed sched = Stop \<Longrightarrow>
     run_executor create batch_sz todo nxt pending owed sched s = ([], [], s)"
  by (subst run_executor.simps) simp

lemma run_executor_Submit:
  "pick_action todo pending owed sched = SubmitNext text_batch rest \<Longrightarrow>
   run_executor create batch_sz rest (Suc nxt) (pending @ [(nxt, text_batch)]) owed (tl sched) s
     = (evs0, reqs0, s0) \<Longrightarrow>
   run_executor create batch_sz todo nxt pending owed sched s = (Submit text_batch # evs0, reqs0, s0)"
  by (subst run_executor.simps) simp

lemma run_executor_Progress:
  "pick_action todo pending owed sched = ReportProgress \<Longrightarrow>
   run_executor create batch_sz todo nxt pending (owed - 1) (tl sched) s = (evs0, reqs0, s0) \<Longrightarrow>
   run_executor create batch_sz todo nxt pending owed sched s = (Progress batch_sz # evs0, reqs0, s0)"
  by (subst run_executor.simps) simp

lemma run_executor_Run:
  "pick_action todo pending owed sched = RunFuture i text_batch others \<Longrightarrow>
   get_embeddings create text_batch s = (r, s1) \<Longrightarrow>
   run_executor create batch_sz todo nxt others (Suc owed) (tl sched) s1 = (evs0, reqs0, s0) \<Longrightarrow>
   run_executor create batch_sz todo nxt pending owed sched s
     = (Request i # evs0, (i, text_batch, r) # reqs0, s0)"
  by (subst run_executor.simps) simp

lemma mset_remove_nth:
  "k < length xs \<Longrightarrow> mset xs = add_mset (xs ! k) (mset (take k xs @ drop (Suc k) xs))"
  by (metis Cons_nth_drop_Suc add_mset_add_single append_take_drop_id mset.simps(2) mset_append union_mset_add_mset_right union_mset_add_mset_left add.right_neutral)

text \<open>
  The positions of the requests: every pending future and every batch still to submit,
  once each.
\<close>

lemma run_executor_positions:
  "run_executor create batch_sz todo nxt pending owed sched s = (evs, reqs, s') \<Longrightarrow>
     mset (map fst reqs) = mset (map fst pending) + mset [nxt..<nxt + length todo]"
proof (induction create batch_sz todo nxt pending owed sched s arbitrary: evs reqs s'
    rule: run_executor.induct)
  case (1 create batch_sz todo nxt pending owed sched s)
  show ?case
  proof (cases "pick_action todo pending owed sched")
    case Stop
    then show ?thesis
      using "1.prems" pick_Stop[OF Stop] by (simp add: run_executor_Stop)
  next
    case (SubmitNext text_batch rest)
    obtain evs0 reqs0 s0 where rec:
      "run_executor create batch_sz rest (Suc nxt) (pending @ [(nxt, text_batch)]) owed (tl sched) s
         = (evs0, reqs0, s0)"
      by (metis prod_cases3)
    have reqs: "reqs = reqs0"
      using run_executor_Submit[OF SubmitNext rec] "1.prems" by simp
    have todo: "todo = text_batch # rest" by (rule pick_Submit[OF SubmitNext])
    have "[nxt..<Suc nxt + length rest] = nxt # [Suc nxt..<Suc nxt + length rest]"
      by (rule upt_conv_Cons) simp
    moreover have "nxt + length todo = Suc nxt + length rest"
      by (simp add: todo)
    ultimately have up: "mset [nxt..<nxt + length todo]
        = add_mset nxt (mset [Suc nxt..<Suc nxt + length rest])"
      by (simp only: mset.simps)
    show ?thesis
      unfolding up reqs using "1.IH"(1)[OF SubmitNext rec] by simp
  next
    case ReportProgress
    obtain evs0 reqs0 s0 where rec:
      "run_executor create batch_sz todo nxt pending (owed - 1) (tl sched) s = (evs0, reqs0, s0)"
      by (metis prod_cases3)
    have reqs: "reqs = reqs0"
      using run_executor_Progress[OF ReportProgress rec] "1.prems" by simp
    show ?thesis
      using "1.IH"(2)[OF ReportProgress rec] reqs by simp
  next
    case (RunFuture i text_batch others)
    obtain r s1 where ge: "get_embeddings create text_batch s = (r, s1)"
      by (cases "get_embeddings create text_batch s")
    obtain evs0 reqs0 s0 where rec:
      "run_executor create batch_sz todo nxt others (Suc owed) (tl sched) s1 = (evs0, reqs0, s0)"
      by (metis prod_cases3)
    have reqs: "reqs = (i, text_batch, r) # reqs0"
      using run_executor_Run[OF RunFuture ge rec] "1.prems" by simp
    from pick_Run[OF RunFuture] obtain k where k: "k < length pending"
      "pending ! k = (i, text_batch)" "others = take k pending @ drop (Suc k) pending"
      by blast
    have "mset (map fst pending) = image_mset fst (mset pending)" by simp
    also have "\<dots> = add_mset i (image_mset fst (mset others))"
      by (subst mset_remove_nth[OF k(1)]) (simp add: k)
    finally have "mset (map fst pending) = add_mset i (mset (map fst others))"
      by simp
    then show ?thesis
      using "1.IH"(3)[OF RunFuture ge[symmetric] rec] reqs by simp
  qed
qed


text \<open>
  The events of the block: every batch is submitted, in order; one request event is recorded
  for each request of the log; nothing is printed.
\<close>

lemma run_executor_events:
  "run_executor create batch_sz todo nxt pending owed sched s = (evs, reqs, s') \<Longrightarrow>
     filter is_Submit evs = map Submit todo
   \<and> filter is_Request evs = map (\<lambda>q. Request (fst q)) reqs
   \<and> \<not> list_ex is_Report evs"
proof (induction create batch_sz todo nxt pending owed sched s arbitrary: evs reqs s'
    rule: run_executor.induct)
  case (1 create batch_sz todo nxt pending owed sched s)
  show ?case
  proof (cases "pick_action todo pending owed sched")
    case Stop
    then show ?thesis
      using "1.prems" pick_Stop[OF Stop] by (simp add: run_executor_Stop)
  next
    case (SubmitNext text_batch rest)
    obtain evs0 reqs0 s0 where rec:
      "run_executor create batch_sz rest (Suc nxt) (pending @ [(nxt, text_batch)]) owed (tl sched) s
         = (evs0, reqs0, s0)"
      by (metis prod_cases3)
    have eq: "evs = Submit text_batch # evs0" "reqs = reqs0"
      using run_executor_Submit[OF SubmitNext rec] "1.prems" by simp_all
    show ?thesis
      using "1.IH"(1)[OF SubmitNext rec] eq pick_Submit[OF SubmitNext] by simp
  next
    case ReportProgress
    obtain evs0 reqs0 s0 where rec:
      "run_executor create batch_sz todo nxt pending (owed - 1) (tl sched) s = (evs0, reqs0, s0)"
      by (metis prod_cases3)
    have eq: "evs = Progress batch_sz # evs0" "reqs = reqs0"
      using run_executor_Progress[OF ReportProgress rec] "1.prems" by simp_all
    show ?thesis
      using "1.IH"(2)[OF ReportProgress rec] eq by simp
  next
    case (RunFuture i text_batch others)
    obtain r s1 where ge: "get_embeddings create text_batch s = (r, s1)"
      by (cases "get_embeddings create text_batch s")
    obtain evs0 reqs0 s0 where rec:
      "run_executor create batch_sz todo nxt others (Suc owed) (tl sched) s1 = (evs0, reqs0, s0)"
      by (metis prod_cases3)
    have eq: "evs = Request i # evs0" "reqs = (i, text_batch, r) # reqs0"
      using run_executor_Run[OF RunFuture ge rec] "1.prems" by simp_all
    show ?thesis
      using "1.IH"(3)[OF RunFuture ge[symmetric] rec] eq by simp
  qed
qed

text \<open>
  Every order of the futures is the completion order of some schedule, so the schedules
  range over all the orders in which the requests can complete.
\<close>

lemma pick_action_submit:
  "pick_action (text_batch # rest) pending owed (0 # sched) = SubmitNext text_batch rest"
  by (simp add: pick_action_def Let_def enabled_def main_enabled_def choice_def)

lemma pick_action_worker:
  assumes "k < length pending"
  shows "pick_action [] pending owed ((if 0 < owed then Suc k else k) # sched)
           = RunFuture (fst (pending ! k)) (snd (pending ! k))
               (take k pending @ drop (Suc k) pending)"
  using assms
  by (auto simp: pick_action_def Let_def enabled_def main_enabled_def choice_def)

lemma run_executor_submit_all:
  "\<exists>evs. run_executor create batch_sz todo nxt pending owed (replicate (length todo) 0 @ sched) s
     = (map Submit todo @ evs,
        fst (snd (run_executor create batch_sz [] (nxt + length todo)
                    (pending @ enumerate nxt todo) owed sched s)),
        snd (snd (run_executor create batch_sz [] (nxt + length todo)
                    (pending @ enumerate nxt todo) owed sched s)))"
proof (induction todo arbitrary: nxt pending)
  case Nil
  show ?case
    by (rule exI[of _ "fst (run_executor create batch_sz [] nxt pending owed sched s)"]) simp
next
  case (Cons text_batch rest)
  from Cons[of "Suc nxt" "pending @ [(nxt, text_batch)]"] obtain evs where
    rec: "run_executor create batch_sz rest (Suc nxt) (pending @ [(nxt, text_batch)]) owed
            (replicate (length rest) 0 @ sched) s
     = (map Submit rest @ evs,
        fst (snd (run_executor create batch_sz [] (Suc nxt + length rest)
                    ((pending @ [(nxt, text_batch)]) @ enumerate (Suc nxt) rest) owed sched s)),
        snd (snd (run_executor create batch_sz [] (Suc nxt + length rest)
                    ((pending @ [(nxt, text_batch)]) @ enumerate (Suc nxt) rest) owed sched s)))"
    by blast
  have pa: "pick_action (text_batch # rest) pending owed
              (replicate (length (text_batch # rest)) 0 @ sched) = SubmitNext text_batch rest"
    by (simp add: pick_action_submit)
  have tl: "tl (replicate (length (text_batch # rest)) 0 @ sched) = replicate (length rest) 0 @ sched"
    by simp
  from run_executor_Submit[OF pa rec[folded tl]]
  show ?case
    by (intro exI[of _ evs]) simp
qed

lemma run_executor_drain:
  assumes "distinct (map fst pending)" "mset order = mset (map fst pending)"
  shows "\<exists>sched. map fst (fst (snd (run_executor create batch_sz [] nxt pending owed sched s))) = order"
  using assms
proof (induction order arbitrary: pending owed s)
  case Nil
  then have "pending = []" by simp
  obtain evs reqs s' where rp: "run_executor create batch_sz [] nxt [] owed [] s = (evs, reqs, s')"
    by (metis prod_cases3)
  from run_executor_positions[OF rp] have "reqs = []" by simp
  then show ?case using rp \<open>pending = []\<close> by (intro exI[of _ "[]"]) simp
next
  case (Cons i order)
  have "i \<in> set (map fst pending)"
    using Cons(3) by (metis list.set_intros(1) mset_eq_setD)
  then obtain k where k: "k < length pending" "fst (pending ! k) = i"
    by (auto simp: in_set_conv_nth)
  let ?others = "take k pending @ drop (Suc k) pending"
  let ?c = "if 0 < owed then Suc k else k"
  obtain r s1 where ge: "get_embeddings create (snd (pending ! k)) s = (r, s1)"
    by (cases "get_embeddings create (snd (pending ! k)) s")
  have split: "map fst pending = map fst (take k pending) @ i # map fst (drop (Suc k) pending)"
    using k by (metis Cons_nth_drop_Suc append_take_drop_id list.simps(9) map_append)
  have "distinct (map fst (take k pending) @ i # map fst (drop (Suc k) pending))"
    using Cons(2) split by simp
  then have d: "distinct (map fst ?others)"
    by auto
  have "mset (map fst pending) = add_mset i (mset (map fst ?others))"
    by (subst split) simp
  then have m: "mset order = mset (map fst ?others)"
    using Cons(3) by simp
  from Cons(1)[OF d m, of "Suc owed" s1] obtain sched where
    sched: "map fst (fst (snd (run_executor create batch_sz [] nxt ?others (Suc owed) sched s1))) = order"
    by blast
  obtain evs0 reqs0 s0 where rec:
    "run_executor create batch_sz [] nxt ?others (Suc owed) (tl (?c # sched)) s1 = (evs0, reqs0, s0)"
    by (metis prod_cases3)
  from run_executor_Run[OF pick_action_worker[OF k(1)] ge rec]
  have "run_executor create batch_sz [] nxt pending owed (?c # sched) s
          = (Request (fst (pending ! k)) # evs0,
             (fst (pending ! k), snd (pending ! k), r) # reqs0, s0)" .
  moreover have "map fst reqs0 = order"
    using sched rec by simp
  ultimately have "map fst (fst (snd (run_executor create batch_sz [] nxt pending owed (?c # sched) s)))
      = i # order"
    using k(2) by simp
  then show ?case by (rule exI[of _ "?c # sched"])
qed

lemma executor_completion_orders:
  fixes batches :: "tokens list list"
  assumes "mset order = mset [0..<length batches]"
  shows "\<exists>sched. map fst (fst (snd (run_executor create batch_sz batches 0 [] 0 sched s))) = order"
proof -
  have "distinct (map fst (enumerate 0 batches))" "mset order = mset (map fst (enumerate 0 batches))"
    using assms by (simp_all add: map_fst_enumerate)
  from run_executor_drain[OF this, of create batch_sz "0 + length batches" 0 s]
  obtain sched where
    s: "map fst (fst (snd (run_executor create batch_sz [] (0 + length batches)
                             ([] @ enumerate 0 batches) 0 sched s))) = order"
    by auto
  from run_executor_submit_all[of create batch_sz batches 0 "[]" 0 sched s] obtain evs where
    "run_executor create batch_sz batches 0 [] 0 (replicate (length batches) 0 @ sched) s
     = (map Submit batches @ evs,
        fst (snd (run_executor create batch_sz [] (0 + length batches)
                    ([] @ enumerate 0 batches) 0 sched s)),
        snd (snd (run_executor create batch_sz [] (0 + length batches)
                    ([] @ enumerate 0 batches) 0 sched s)))"
    by blast
  then have "map fst (fst (snd (run_executor create batch_sz batches 0 [] 0
                (replicate (length batches) 0 @ sched) s))) = order"
    using s by simp
  then show ?thesis by (rule exI)
qed

subsection \<open>The futures and the final loop\<close>









text \<open>
  Once the executor has finished there is exactly one request for every batch, and its
  outcome is stored in the future at the position of the batch.
\<close>

lemma executor_positions:
  fixes batches :: "tokens list list"
  assumes "run_executor create batch_sz batches 0 [] 0 sched s = (evs, reqs, s')"
  shows "mset (map fst reqs) = mset [0..<length batches]"
    and "distinct (map fst reqs)"
    and "length reqs = length batches"
proof -
  show m: "mset (map fst reqs) = mset [0..<length batches]"
    using run_executor_positions[OF assms] by simp
  then show "distinct (map fst reqs)"
    by (metis distinct_upt mset_eq_imp_distinct_iff)
  show "length reqs = length batches"
    using m by (metis length_map length_upt minus_nat.diff_0 size_mset)
qed




subsection \<open>The run as a whole\<close>

lemma embed_corpus_tokenizer_raises:
  "encoded_corpus encode corpus L = Inl e \<Longrightarrow>
     embed_corpus encode create sched corpus batch_sz num_workers L s
       = \<lparr>events = [], requests = [], returned = Some (Inl e), service_state = s\<rparr>"
  by (simp add: embed_corpus_def)

lemma embed_corpus_run:
  assumes "encoded_corpus encode corpus L = Inr enc" "0 < num_workers"
    and "batchify enc batch_sz = Inr batches"
  shows "\<exists>evs reqs s'.
      run_executor create batch_sz batches 0 [] 0 sched s = (evs, reqs, s')
    \<and> embed_corpus encode create sched corpus batch_sz num_workers L s =
       \<lparr>events = Report (length enc) (sum_list (map length enc))
                   (of_nat (sum_list (map length enc)) / 1000 * (4 / 10000)) # evs,
        requests = reqs,
        returned = gather (set_results reqs (replicate (length batches) None)) [],
        service_state = s'\<rparr>"
proof -
  obtain evs reqs s' where
    rp: "run_executor create batch_sz batches 0 [] 0 sched s = (evs, reqs, s')"
    by (metis prod_cases3)
  show ?thesis
    using assms rp by (simp add: embed_corpus_def Let_def)
qed

lemma embed_corpus_no_requests:
  assumes "encoded_corpus encode corpus L = Inr enc"
    and "num_workers \<le> 0 \<or> isl (batchify enc batch_sz)"
  shows "requests (embed_corpus encode create sched corpus batch_sz num_workers L s) = []"
    and "events (embed_corpus encode create sched corpus batch_sz num_workers L s)
           = [Report (length enc) (sum_list (map length enc))
                (of_nat (sum_list (map length enc)) / 1000 * (4 / 10000))]"
  using assms by (auto simp: embed_corpus_def Let_def split: sum.splits)

subsection \<open>The services and concrete runs\<close>

lemma map_snd_enumerate: "map (\<lambda>p. f (snd p)) (enumerate n xs) = map f xs"
  by (induction xs arbitrary: n) simp_all

lemma map_embedding_respond: "map embedding (respond input) = map sum_list input"
  using map_snd_enumerate[of sum_list 0 input]
  by (simp add: respond_def case_prod_beta comp_def)

text \<open>The definitions that a concrete run unfolds.\<close>

lemmas run_eval =
  embed_corpus_def encoded_corpus_def slice_to_def toy_encode_def batchify_def
  batchify_from.simps slice_def run_executor.simps pick_action_def enabled_def main_enabled_def
  choice_def get_embeddings_def respond_def set_results_def Let_def

section \<open>The claims\<close>




text \<open>
  Claim C2 says that a request failing with a transient error is retried with randomized
  exponential backoff up to a bounded number of attempts. The notebook imports
  \<^verbatim>\<open>retry\<close>, \<^verbatim>\<open>wait_random_exponential\<close> and \<^verbatim>\<open>stop_after_attempt\<close> but applies them
  nowhere: \<open>get_embeddings\<close> sends its request once. Against the rate-limited service,
  the request fails with \<^verbatim>\<open>RateLimitError\<close> after a single attempt, although the third
  attempt would have been answered, and \<open>embed_corpus\<close> raises that error having sent
  exactly one request.
\<close>

theorem get_embeddings_single_attempt:
  "get_embeddings flaky [[1, 2, 3]] 0 = (Inl RateLimitError, 1)
   \<and> get_embeddings flaky [[1, 2, 3]] 2 = (Inr [6], 3)
   \<and> returned (embed_corpus toy_encode flaky [] [''abc''] 64 8 8191 0) = Some (Inl RateLimitError)
   \<and> service_state (embed_corpus toy_encode flaky [] [''abc''] 64 8 8191 0) = 1"
  by (simp add: run_eval flaky_def)

text \<open>
  Claim C3 says that a table of 25000 rows with batch size 300 is split into exactly 84
  chunks. On a table of 25000 rows \<open>to_batches\<close> yields 83 chunks, not 84.
\<close>

theorem to_batches_25000_by_300_has_83_chunks:
  "map_sum id length (to_batches \<lparr>batch_size = 300\<rparr> (replicate 25000 (0::nat))) = Inr 83
   \<and> map_sum id length (to_batches \<lparr>batch_size = 300\<rparr> (replicate 25000 (0::nat))) \<noteq> Inr 84"
proof -
  from split_25000_by_300[of "replicate 25000 (0::nat)"]
  obtain cs where "to_batches \<lparr>batch_size = 300\<rparr> (replicate 25000 (0::nat)) = Inr cs" "length cs = 83"
    by auto
  then show ?thesis by simp
qed

text \<open>
  Claim C3, amended. For a table of 25000 rows and batch size 300, \<open>to_batches\<close> yields
  exactly 83 chunks (\<open>round(25000 / 300) = 83\<close>): the first 17 have 302 rows and the other
  66 have 301 rows, so the remainder is spread over the leading chunks. The chunks
  concatenate to the table and none of them is empty.
\<close>

theorem to_batches_25000_by_300:
  assumes "length df = 25000"
  shows "\<exists>cs. to_batches \<lparr>batch_size = 300\<rparr> df = Inr cs \<and> length cs = 83
           \<and> map length cs = replicate 17 302 @ replicate 66 301
           \<and> concat cs = df \<and> [] \<notin> set cs"
  using split_25000_by_300[OF assms] .

text \<open>
  Claim C3, amended, at a table of 25000 rows.
\<close>

theorem to_batches_25000_by_300_witness:
  "length (replicate 25000 (0::nat)) = 25000 \<and>
   (\<exists>cs. to_batches \<lparr>batch_size = 300\<rparr> (replicate 25000 (0::nat)) = Inr cs \<and> length cs = 83
           \<and> map length cs = replicate 17 302 @ replicate 66 301
           \<and> concat cs = replicate 25000 0 \<and> [] \<notin> set cs)"
  using to_batches_25000_by_300[of "replicate 25000 (0::nat)"] by simp

text \<open>
  Claim C4. For every table and every chunk size of at least 1, the chunks of either
  splitter (\<open>batchify\<close> and \<open>BatchGenerator.to_batches\<close>) concatenate, in order, to the
  table, and no chunk is empty unless the table is.
\<close>

theorem chunks_concat_to_table:
  assumes "1 \<le> n"
  shows "(\<exists>cs. batchify xs n = Inr cs \<and> concat cs = xs \<and> [] \<notin> set cs)
       \<and> (\<exists>cs. to_batches \<lparr>batch_size = n\<rparr> xs = Inr cs \<and> concat cs = xs
              \<and> (xs \<noteq> [] \<longrightarrow> [] \<notin> set cs))"
proof
  have n: "0 < nat n" "0 < n" using assms by simp_all
  show "\<exists>cs. batchify xs n = Inr cs \<and> concat cs = xs \<and> [] \<notin> set cs"
    using batchify_from_concat[OF n(1), of xs 0] batchify_from_no_empty[OF n(1), of xs 0]
    by (simp add: batchify_pos[OF n(2)])
next
  have "0 < batch_size \<lparr>batch_size = n\<rparr>" using assms by simp
  from to_batches_concat[OF this, of xs]
  show "\<exists>cs. to_batches \<lparr>batch_size = n\<rparr> xs = Inr cs \<and> concat cs = xs
              \<and> (xs \<noteq> [] \<longrightarrow> [] \<notin> set cs)"
    by blast
qed

text \<open>
  Claim C4, at a table of five rows and chunk size 2.
\<close>

theorem chunks_concat_to_table_witness:
  "(1::int) \<le> 2 \<and>
   batchify [10, 20, 30, 40, 50 :: nat] 2 = Inr [[10, 20], [30, 40], [50]] \<and>
   to_batches \<lparr>batch_size = 2\<rparr> [10, 20, 30, 40, 50 :: nat] = Inr [[10, 20, 30], [40, 50]] \<and>
   (\<exists>cs. batchify [10, 20, 30, 40, 50 :: nat] 2 = Inr cs \<and> concat cs = [10, 20, 30, 40, 50]
        \<and> [] \<notin> set cs) \<and>
   (\<exists>cs. to_batches \<lparr>batch_size = 2\<rparr> [10, 20, 30, 40, 50 :: nat] = Inr cs
        \<and> concat cs = [10, 20, 30, 40, 50]
        \<and> ([10, 20, 30, 40, 50 :: nat] \<noteq> [] \<longrightarrow> [] \<notin> set cs))"
proof -
  have a: "batchify [10, 20, 30, 40, 50 :: nat] 2 = Inr [[10, 20], [30, 40], [50]]"
    by (simp add: batchify_def batchify_from.simps slice_def)
  have b: "to_batches \<lparr>batch_size = 2\<rparr> [10, 20, 30, 40, 50 :: nat] = Inr [[10, 20, 30], [40, 50]]"
    using py_round_div[of 2 5] by (simp add: to_batches_def splits_num_def array_split_def)
  show ?thesis
    using chunks_concat_to_table[of 2 "[10, 20, 30, 40, 50 :: nat]"] a b by simp
qed

text \<open>
  Claim C5 says that for every text the tokenizer and the truncation return a token
  sequence. For a text that spells a special token \<^verbatim>\<open>encode_batch\<close> raises
  \<^verbatim>\<open>ValueError\<close> and there is no token sequence.
\<close>

theorem encoded_corpus_special_token_raises:
  "encoded_corpus toy_encode [''<|endoftext|>''] 8191 = Inl ValueError"
  by (simp add: encoded_corpus_def toy_encode_def)

text \<open>
  Claim C5, amended. For every text that the tokenizer accepts and every maximum token
  length \<open>L\<close> that is not negative, the truncated token sequence has at most \<open>L\<close>
  tokens, and it is the full tokenization of the text whenever that has at most \<open>L\<close>
  tokens.
\<close>

theorem encoded_corpus_truncates:
  assumes "0 \<le> L" and accepted: "\<forall>text \<in> set corpus. \<exists>a. encode text = Inr a"
  shows "\<exists>ec. encoded_corpus encode corpus L = Inr ec \<and> length ec = length corpus
           \<and> (\<forall>i < length corpus. \<exists>a. encode (corpus ! i) = Inr a
                 \<and> length (ec ! i) \<le> nat L
                 \<and> (length a \<le> nat L \<longrightarrow> ec ! i = a))"
proof -
  from encode_batch_accepts[OF accepted] obtain encs where
    encs: "encode_batch encode corpus = Inr encs" by blast
  note tok = encode_batch_Inr[OF encs]
  have "\<forall>i < length corpus. \<exists>a. encode (corpus ! i) = Inr a
          \<and> length (map (\<lambda>a. slice_to a L) encs ! i) \<le> nat L
          \<and> (length a \<le> nat L \<longrightarrow> map (\<lambda>a. slice_to a L) encs ! i = a)"
    using tok assms(1) by (simp add: slice_to_def)
  moreover have "length (map (\<lambda>a. slice_to a L) encs) = length corpus"
    using tok by simp
  ultimately show ?thesis
    using encoded_corpus_Inr[OF encs, of L] by blast
qed

text \<open>
  Claim C5, amended, at two texts and the maximum length 2: the first is truncated, the
  second is kept.
\<close>

theorem encoded_corpus_truncates_witness:
  "(0::int) \<le> 2
   \<and> toy_encode ''abc'' = Inr [97, 98, 99] \<and> toy_encode ''d'' = Inr [100]
   \<and> encoded_corpus toy_encode [''abc'', ''d''] 2 = Inr [[97, 98], [100]]
   \<and> (\<exists>ec. encoded_corpus toy_encode [''abc'', ''d''] 2 = Inr ec
         \<and> length ec = length [''abc'', ''d'']
         \<and> (\<forall>i < length [''abc'', ''d''].
               \<exists>a. toy_encode ([''abc'', ''d''] ! i) = Inr a
                 \<and> length (ec ! i) \<le> nat 2
                 \<and> (length a \<le> nat 2 \<longrightarrow> ec ! i = a)))"
proof -
  have h: "(0::int) \<le> 2" by simp
  have t1: "toy_encode ''abc'' = Inr [97, 98, 99]" and t2: "toy_encode ''d'' = Inr [100]"
    by (simp_all add: toy_encode_def)
  have acc: "\<forall>text \<in> set [''abc'', ''d'']. \<exists>a. toy_encode text = Inr a"
    using t1 t2 by simp
  have e: "encoded_corpus toy_encode [''abc'', ''d''] 2 = Inr [[97, 98], [100]]"
    by (simp add: encoded_corpus_def slice_to_def toy_encode_def)
  from h t1 t2 e encoded_corpus_truncates[OF h acc] show ?thesis by blast
qed



text \<open>
  Claim C7 says that for every table whose computed number of chunks is 0 or 1 the
  splitter yields no empty chunk. For the table without rows the number of chunks is
  \<open>round(0 / 300) = 0\<close> and \<open>to_batches\<close> yields the table itself, one empty chunk.
\<close>

theorem to_batches_empty_table_single_empty_chunk:
  "to_batches \<lparr>batch_size = 300\<rparr> ([] :: nat list) = Inr [[]]"
  by (simp add: to_batches_empty)

text \<open>
  Claim C7, amended. For every table and every batch size of at least 1, \<open>to_batches\<close>
  raises nothing and its chunks concatenate to the table, so that every row is yielded
  and none is lost; no chunk is empty unless the table is; and whenever the computed
  number of chunks is 0 or 1 the table is yielded whole as the single chunk.
\<close>

theorem to_batches_small_table:
  assumes "1 \<le> batch_size self"
  shows "\<exists>cs. to_batches self df = Inr cs \<and> concat cs = df \<and> (df \<noteq> [] \<longrightarrow> [] \<notin> set cs)
           \<and> (\<forall>splits. splits_num self (length df) = Inr splits \<and> splits \<le> 1 \<longrightarrow> cs = [df])"
proof -
  have pos: "0 < batch_size self" using assms by simp
  from to_batches_concat[OF pos, of df] obtain cs where
    cs: "to_batches self df = Inr cs" "concat cs = df" "df \<noteq> [] \<longrightarrow> [] \<notin> set cs"
    by blast
  have "\<forall>splits. splits_num self (length df) = Inr splits \<and> splits \<le> 1 \<longrightarrow> cs = [df]"
    using cs(1) by (auto simp: to_batches_def)
  with cs show ?thesis by blast
qed

text \<open>
  Claim C7, amended, at a table of 10 rows and batch size 300, where the computed number
  of chunks is 0.
\<close>

theorem to_batches_small_table_witness:
  "(1::int) \<le> batch_size \<lparr>batch_size = 300\<rparr> \<and>
   splits_num \<lparr>batch_size = 300\<rparr> (length [0, 1, 2, 3, 4, 5, 6, 7, 8, 9 :: nat]) = Inr 0 \<and>
   to_batches \<lparr>batch_size = 300\<rparr> [0, 1, 2, 3, 4, 5, 6, 7, 8, 9 :: nat]
     = Inr [[0, 1, 2, 3, 4, 5, 6, 7, 8, 9]]"
proof -
  have s: "splits_num \<lparr>batch_size = 300\<rparr> (length [0, 1, 2, 3, 4, 5, 6, 7, 8, 9 :: nat]) = Inr 0"
    using py_round_div[of 300 10] by (simp add: splits_num_def)
  from to_batches_small_table[of "\<lparr>batch_size = 300\<rparr>" "[0, 1, 2, 3, 4, 5, 6, 7, 8, 9 :: nat]"] s
  show ?thesis by auto
qed

text \<open>
  Claim C8. In every run the report comes before every submission and every request:
  whatever is dispatched is preceded by the report, which is the first event. When the
  tokenizer accepts the corpus, the first event is the report of the number of articles,
  the number of tokens of the truncated corpus and the cost estimated from it, and no
  other report follows; the estimate never stops the run: whenever the executor can be
  created, every batch is submitted, in order, and one request is sent for each of them,
  whatever the estimate is. When the tokenizer raises, the run ends before the report:
  nothing is printed and nothing is dispatched.
\<close>

theorem embed_corpus_reports_cost_first:
  "(\<forall>us e vs. events (embed_corpus encode create sched corpus batch_sz num_workers L s) = us @ e # vs
        \<and> (is_Submit e \<or> is_Request e) \<longrightarrow> (\<exists>n t c us'. us = Report n t c # us'))
   \<and> (\<forall>enc. encoded_corpus encode corpus L = Inr enc \<longrightarrow>
        (\<exists>rest. events (embed_corpus encode create sched corpus batch_sz num_workers L s)
             = Report (length corpus) (sum_list (map length enc))
                 (of_nat (sum_list (map length enc)) / 1000 * (4 / 10000)) # rest
           \<and> \<not> list_ex is_Report rest
           \<and> (1 \<le> num_workers \<longrightarrow>
                (\<forall>batches. batchify enc batch_sz = Inr batches \<longrightarrow>
                   filter is_Submit rest = map Submit batches
                 \<and> length (filter is_Request rest) = length batches))))
   \<and> (\<forall>e. encoded_corpus encode corpus L = Inl e \<longrightarrow>
        events (embed_corpus encode create sched corpus batch_sz num_workers L s) = []
      \<and> requests (embed_corpus encode create sched corpus batch_sz num_workers L s) = []
      \<and> returned (embed_corpus encode create sched corpus batch_sz num_workers L s) = Some (Inl e))"
proof -
  let ?run = "embed_corpus encode create sched corpus batch_sz num_workers L s"
  have third: "\<forall>e. encoded_corpus encode corpus L = Inl e \<longrightarrow>
        events ?run = [] \<and> requests ?run = [] \<and> returned ?run = Some (Inl e)"
    by (simp add: embed_corpus_tokenizer_raises)
  have second: "\<exists>rest. events ?run
             = Report (length corpus) (sum_list (map length enc))
                 (of_nat (sum_list (map length enc)) / 1000 * (4 / 10000)) # rest
           \<and> \<not> list_ex is_Report rest
           \<and> (1 \<le> num_workers \<longrightarrow>
                (\<forall>batches. batchify enc batch_sz = Inr batches \<longrightarrow>
                   filter is_Submit rest = map Submit batches
                 \<and> length (filter is_Request rest) = length batches))"
    if ec: "encoded_corpus encode corpus L = Inr enc" for enc
  proof -
    have lc: "length enc = length corpus"
      using ec encode_batch_Inr[of encode corpus]
      by (auto simp: encoded_corpus_def split: sum.splits)
    show ?thesis
    proof (cases "0 < num_workers \<and> \<not> isl (batchify enc batch_sz)")
      case False
      then have "num_workers \<le> 0 \<or> isl (batchify enc batch_sz)" by auto
      from embed_corpus_no_requests(2)[OF ec this, of create sched s] False lc
      show ?thesis by (auto simp: isl_def)
    next
      case True
      then obtain batches where bt: "batchify enc batch_sz = Inr batches"
        by (cases "batchify enc batch_sz") simp_all
      from embed_corpus_run[OF ec _ bt, of num_workers create sched s] True
      obtain evs reqs s' where
        rp: "run_executor create batch_sz batches 0 [] 0 sched s = (evs, reqs, s')" and
        ev: "events ?run = Report (length enc) (sum_list (map length enc))
                   (of_nat (sum_list (map length enc)) / 1000 * (4 / 10000)) # evs"
        by force
      note inv = run_executor_events[OF rp]
      have "length (filter is_Request evs) = length batches"
        using inv executor_positions(3)[OF rp] by simp
      then show ?thesis
        using ev inv bt lc by auto
    qed
  qed
  have first: "\<exists>n t c us'. us = Report n t c # us'"
    if split: "events ?run = us @ e # vs" and disp: "is_Submit e \<or> is_Request e" for us e vs
  proof (cases "encoded_corpus encode corpus L")
    case (Inl err)
    then show ?thesis using third split by simp
  next
    case (Inr enc)
    from second[OF Inr] obtain rest n t c where
      ev: "events ?run = Report n t c # rest"
      by blast
    show ?thesis
    proof (cases us)
      case Nil
      then have "e = Report n t c" using split ev by simp
      then show ?thesis using disp by simp
    next
      case (Cons u us')
      then have "u = Report n t c" using split ev by simp
      then show ?thesis using Cons by blast
    qed
  qed
  from first second third show ?thesis by blast
qed

text \<open>
  Claim C8, at a corpus of three texts with batch size 2, where the first request is sent
  before the second batch is submitted, and at a corpus that the tokenizer rejects.
\<close>

theorem embed_corpus_reports_cost_first_witness:
  "events (embed_corpus toy_encode ideal [0, 1, 0, 1] [''ab'', ''c'', ''def''] 2 8 8191 0)
     = [Report 3 6 (3 / 1250000), Submit [[97, 98], [99]], Request 0, Submit [[100, 101, 102]],
        Request 1, Progress 2, Progress 2]
   \<and> encoded_corpus toy_encode [''ab'', ''c'', ''def''] 8191 = Inr [[97, 98], [99], [100, 101, 102]]
   \<and> (1::int) \<le> 8
   \<and> batchify [[97, 98], [99], [100, 101, 102 :: nat]] 2 = Inr [[[97, 98], [99]], [[100, 101, 102]]]
   \<and> (\<exists>rest. events (embed_corpus toy_encode ideal [0, 1, 0, 1] [''ab'', ''c'', ''def''] 2 8 8191 0)
         = Report (length [''ab'', ''c'', ''def''])
             (sum_list (map length [[97, 98], [99], [100, 101, 102 :: nat]]))
             (of_nat (sum_list (map length [[97, 98], [99], [100, 101, 102 :: nat]]))
                / 1000 * (4 / 10000))
           # rest
       \<and> \<not> list_ex is_Report rest
       \<and> filter is_Submit rest = map Submit [[[97, 98], [99]], [[100, 101, 102]]]
       \<and> length (filter is_Request rest) = length [[[97, 98], [99]], [[100, 101, 102 :: nat]]])
   \<and> encoded_corpus toy_encode [''abc'', ''<|endoftext|>''] 8191 = Inl ValueError
   \<and> events (embed_corpus toy_encode ideal [] [''abc'', ''<|endoftext|>''] 2 8 8191 0) = []"
proof -
  have h1: "(1::int) \<le> 8" by simp
  have h0: "encoded_corpus toy_encode [''ab'', ''c'', ''def''] 8191
              = Inr [[97, 98], [99], [100, 101, 102]]"
    by (simp add: encoded_corpus_def slice_to_def toy_encode_def)
  have h2: "batchify [[97, 98], [99], [100, 101, 102 :: nat]] 2
              = Inr [[[97, 98], [99]], [[100, 101, 102]]]"
    by (simp add: batchify_def batchify_from.simps slice_def)
  have h3: "events (embed_corpus toy_encode ideal [0, 1, 0, 1] [''ab'', ''c'', ''def''] 2 8 8191 0)
     = [Report 3 6 (3 / 1250000), Submit [[97, 98], [99]], Request 0, Submit [[100, 101, 102]],
        Request 1, Progress 2, Progress 2]"
    by (simp add: run_eval ideal_def)
  have h4: "encoded_corpus toy_encode [''abc'', ''<|endoftext|>''] 8191 = Inl ValueError"
    by (simp add: encoded_corpus_def toy_encode_def)
  from embed_corpus_reports_cost_first[of toy_encode ideal "[0, 1, 0, 1]" "[''ab'', ''c'', ''def'']" 2 8 8191 0] h0 h1 h2
  have a: "\<exists>rest. events (embed_corpus toy_encode ideal [0, 1, 0, 1] [''ab'', ''c'', ''def''] 2 8 8191 0)
         = Report (length [''ab'', ''c'', ''def''])
             (sum_list (map length [[97, 98], [99], [100, 101, 102 :: nat]]))
             (of_nat (sum_list (map length [[97, 98], [99], [100, 101, 102 :: nat]]))
                / 1000 * (4 / 10000))
           # rest
       \<and> \<not> list_ex is_Report rest
       \<and> filter is_Submit rest = map Submit [[[97, 98], [99]], [[100, 101, 102]]]
       \<and> length (filter is_Request rest) = length [[[97, 98], [99]], [[100, 101, 102 :: nat]]]"
    by blast
  from embed_corpus_reports_cost_first[of toy_encode ideal "[]" "[''abc'', ''<|endoftext|>'']" 2 8 8191 0] h4
  have b: "events (embed_corpus toy_encode ideal [] [''abc'', ''<|endoftext|>''] 2 8 8191 0) = []"
    by blast
  from h0 h1 h2 h3 h4 a b show ?thesis by blast
qed

text \<open>
  Claim C9. For every list of at least one element and every chunk size \<open>n\<close> of at least 1,
  \<open>batchify\<close> yields the ceiling of \<open>N / n\<close> chunks; chunk \<open>i\<close> starts at the index
  \<open>i * n\<close>; every chunk but the last has exactly \<open>n\<close> elements, and the last has between
  1 and \<open>n\<close>.
\<close>

theorem batchify_chunk_shape:
  assumes "1 \<le> n" "xs \<noteq> []"
  shows "\<exists>cs. batchify xs n = Inr cs
           \<and> length cs = nat \<lceil>(of_nat (length xs) :: rat) / of_int n\<rceil>
           \<and> (\<forall>i < length cs. cs ! i = take (nat n) (drop (i * nat n) xs))
           \<and> (\<forall>i. Suc i < length cs \<longrightarrow> length (cs ! i) = nat n)
           \<and> 1 \<le> length (last cs) \<and> length (last cs) \<le> nat n"
proof -
  define m where "m = nat n"
  have m: "0 < m" and n: "0 < n" and nm: "n = int m" using assms(1) by (simp_all add: m_def)
  define cs where "cs = batchify_from xs m 0"
  have eq: "batchify xs n = Inr cs"
    by (simp add: batchify_pos[OF n] cs_def m_def)
  have len: "length cs = (length xs + m - 1) div m"
    using batchify_from_length[OF m, of xs 0] by (simp add: cs_def)
  have lenc: "length cs = nat \<lceil>(of_nat (length xs) :: rat) / of_int n\<rceil>"
    using ceil_div_nat[OF m, of "length xs"] len by (simp add: nm)
  have nth: "\<forall>i < length cs. cs ! i = take m (drop (i * m) xs)"
    using batchify_from_nth[OF m, of _ xs 0] by (simp add: cs_def)
  have ne: "cs \<noteq> []"
  proof
    assume "cs = []"
    then have "concat cs = []" by simp
    then show False using batchify_from_concat[OF m, of xs 0] assms(2) by (simp add: cs_def)
  qed
  have full: "\<forall>i. Suc i < length cs \<longrightarrow> length (cs ! i) = m"
  proof (intro allI impI)
    fix i assume i: "Suc i < length cs"
    then have "Suc (Suc i) \<le> length cs" by simp
    then have "Suc (Suc i) * m \<le> length cs * m" by (rule mult_le_mono1)
    also have "\<dots> \<le> length xs + m - 1" unfolding len by simp
    finally have "i * m + m + m \<le> length xs + m - 1" by simp
    then have "i * m + m \<le> length xs" using m by linarith
    then show "length (cs ! i) = m" using nth i by simp
  qed
  have "last cs \<in> set cs" using ne by simp
  then have "last cs \<noteq> []" using batchify_from_no_empty[OF m, of xs 0] by (auto simp: cs_def)
  then have l1: "1 \<le> length (last cs)" by (simp add: Suc_le_eq)
  have "last cs = cs ! (length cs - 1)" using ne by (simp add: last_conv_nth)
  then have l2: "length (last cs) \<le> m" using nth ne by simp
  show ?thesis using eq lenc nth full l1 l2 unfolding m_def by blast
qed

text \<open>
  Claim C9, at a list of five elements and chunk size 2.
\<close>

theorem batchify_chunk_shape_witness:
  "(1::int) \<le> 2 \<and> [10, 20, 30, 40, 50 :: nat] \<noteq> [] \<and>
   batchify [10, 20, 30, 40, 50 :: nat] 2 = Inr [[10, 20], [30, 40], [50]] \<and>
   (\<exists>cs. batchify [10, 20, 30, 40, 50 :: nat] 2 = Inr cs
           \<and> length cs = nat \<lceil>(of_nat (length [10, 20, 30, 40, 50 :: nat]) :: rat) / of_int 2\<rceil>
           \<and> (\<forall>i < length cs. cs ! i = take (nat 2) (drop (i * nat 2) [10, 20, 30, 40, 50]))
           \<and> (\<forall>i. Suc i < length cs \<longrightarrow> length (cs ! i) = nat 2)
           \<and> 1 \<le> length (last cs) \<and> length (last cs) \<le> nat 2)"
proof -
  have h1: "(1::int) \<le> 2" by simp
  have h2: "[10, 20, 30, 40, 50 :: nat] \<noteq> []" by simp
  have a: "batchify [10, 20, 30, 40, 50 :: nat] 2 = Inr [[10, 20], [30, 40], [50]]"
    by (simp add: batchify_def batchify_from.simps slice_def)
  from h1 h2 a batchify_chunk_shape[OF h1 h2] show ?thesis by blast
qed

text \<open>
  Claim C10. For a table without rows \<open>to_batches\<close> yields exactly one chunk, which is
  empty, and it never yields zero chunks. Dividing by the batch size 0 raises
  \<^verbatim>\<open>ZeroDivisionError\<close>, for every table, so the batch size is taken to be other than 0.
\<close>

theorem to_batches_zero_rows:
  assumes "batch_size self \<noteq> 0"
  shows "to_batches self ([] :: 'a list) = Inr [[]]
       \<and> (\<forall>(df :: 'a list) cs. to_batches self df = Inr cs \<longrightarrow> cs \<noteq> [])"
  using to_batches_empty[OF assms] to_batches_nonempty_result[OF assms] by blast

text \<open>
  Claim C10, at the default batch size 10.
\<close>

theorem to_batches_zero_rows_witness:
  "batch_size \<lparr>batch_size = 10\<rparr> \<noteq> 0 \<and>
   to_batches \<lparr>batch_size = 10\<rparr> ([] :: nat list) = Inr [[]] \<and>
   [[] :: nat list] \<noteq> []"
proof -
  have h: "batch_size \<lparr>batch_size = 10\<rparr> \<noteq> 0" by simp
  from to_batches_zero_rows[where ?'a = nat and self = "\<lparr>batch_size = 10\<rparr>", OF h]
  have e: "to_batches \<lparr>batch_size = 10\<rparr> ([] :: nat list) = Inr [[]]"
    and n: "\<forall>(df :: nat list) cs. to_batches \<lparr>batch_size = 10\<rparr> df = Inr cs \<longrightarrow> cs \<noteq> []"
    by blast+
  from n e have "[[] :: nat list] \<noteq> []" by blast
  with h e show ?thesis by blast
qed

end
